theory Spec2Isabelle
  imports Main "HOL-Library.Multiset"
begin

section \<open>The data sources panel of marimo (datasources.tsx)\<close>

text \<open>
  The panel renders a tree of connections, databases, schemas, tables and columns.
  This theory embeds the derivations and the hook logic of
  \<^verbatim>\<open>src/frontend/src/components/datasources/datasources.tsx\<close>:
  the two derived atoms (\<^verbatim>\<open>sortedTablesAtom\<close>, \<^verbatim>\<open>connectionsAtom\<close>), the snippet
  generator \<^verbatim>\<open>getCode\<close>, and the state of the tree nodes
  (\<^verbatim>\<open>Engine\<close>, \<^verbatim>\<open>DatabaseItem\<close>, \<^verbatim>\<open>SchemaItem\<close>, \<^verbatim>\<open>TableList\<close>,
  \<^verbatim>\<open>DatasetTableItem\<close>).
\<close>

subsection \<open>Values of the kernel messages\<close>

text \<open>
  A field of type \<^verbatim>\<open>string | null | undefined\<close>. JavaScript treats \<^verbatim>\<open>undefined\<close>,
  \<^verbatim>\<open>null\<close> and the empty string as falsy, and a template literal prints the first two
  as the words \<^verbatim>\<open>undefined\<close> and \<^verbatim>\<open>null\<close>.
\<close>

datatype opt_string = Undefined | Null | Str string

fun truthy :: "opt_string \<Rightarrow> bool" where
  "truthy (Str s) = (s \<noteq> [])"
| "truthy Undefined = False"
| "truthy Null = False"

fun template :: "opt_string \<Rightarrow> string" where
  "template (Str s) = s"
| "template Undefined = ''undefined''"
| "template Null = ''null''"

type_synonym cell_id = string

record data_table =
  tbl_name :: string
  source_type :: string
  tbl_engine :: opt_string
  variable_name :: opt_string
  columns :: "string list"

record db_schema =
  schema_name :: string
  schema_tables :: "data_table list"

record database =
  db_name :: string
  schemas :: "db_schema list"

record data_source_connection =
  conn_name :: string
  dialect :: string
  databases :: "database list"
  default_database :: opt_string
  default_schema :: opt_string

record variable =
  var_name :: string
  declaredBy :: "cell_id list"

record sql_table_context =
  ctx_engine :: string
  ctx_database :: string
  ctx_schema :: string
  defaultSchema :: opt_string
  defaultDatabase :: opt_string

subsection \<open>Library functions of JavaScript and lodash\<close>

text \<open>\<^verbatim>\<open>Array.prototype.indexOf\<close>: the first index of the element, or \<open>-1\<close>.\<close>

fun indexOf :: "'a list \<Rightarrow> 'a \<Rightarrow> int" where
  "indexOf [] x = - 1"
| "indexOf (y # ys) x =
     (if y = x then 0
      else (let i = indexOf ys x in if i = - 1 then - 1 else i + 1))"

text \<open>
  lodash \<^verbatim>\<open>sortBy\<close> with one numeric iteratee: a stable sort in ascending order of the
  iteratee's values. The insertion sort \<^const>\<open>sort_key\<close> is stable.
\<close>

definition sortBy :: "('a \<Rightarrow> int) \<Rightarrow> 'a list \<Rightarrow> 'a list" where
  "sortBy iteratee collection = sort_key iteratee collection"

subsection \<open>sortedTablesAtom\<close>

text \<open>
  The iteratee of \<^verbatim>\<open>sortedTablesAtom\<close>. \<open>variables\<close> is \<^verbatim>\<open>Object.values(variables)\<close>,
  \<open>inOrderIds\<close> is \<^verbatim>\<open>cellIds.inOrderIds\<close>. \<^verbatim>\<open>declaredBy[0]\<close> of an empty array is
  \<^verbatim>\<open>undefined\<close>, which no cell id equals, so \<^verbatim>\<open>indexOf\<close> gives \<open>-1\<close> there.
\<close>

definition tableIndex :: "variable list \<Rightarrow> cell_id list \<Rightarrow> data_table \<Rightarrow> int" where
  "tableIndex variables inOrderIds table =
     (if \<not> truthy (variable_name table) then - 1
      else
        (case find (\<lambda>v. Str (var_name v) = variable_name table) variables of
           None \<Rightarrow> 0
         | Some variable \<Rightarrow>
             (let index = (case declaredBy variable of
                             [] \<Rightarrow> - 1
                           | c # _ \<Rightarrow> indexOf inOrderIds c)
              in if index = - 1 then 0 else index)))"

definition sortedTablesAtom ::
  "data_table list \<Rightarrow> variable list \<Rightarrow> cell_id list \<Rightarrow> data_table list" where
  "sortedTablesAtom tables variables inOrderIds =
     sortBy (tableIndex variables inOrderIds) tables"

subsection \<open>connectionsAtom\<close>

text \<open>
  A JavaScript \<^verbatim>\<open>Map\<close> keeps its entries in insertion order with distinct keys: an
  association list. Maps are objects shared by reference, so they live in a store whose
  addresses are the references. \<^verbatim>\<open>new Map(m)\<close> allocates a new object with the entries
  of \<open>m\<close>; \<^verbatim>\<open>delete\<close> changes the object it is called on.
\<close>

type_synonym conn_map = "(string \<times> data_source_connection) list"
type_synonym store = "conn_map list"
type_synonym ref = nat

definition Map_new :: "store \<Rightarrow> ref \<Rightarrow> (store \<times> ref) option" where
  "Map_new s r = (if r < length s then Some (s @ [s ! r], length s) else None)"

definition Map_get :: "store \<Rightarrow> ref \<Rightarrow> string \<Rightarrow> data_source_connection option" where
  "Map_get s r k = map_of (s ! r) k"

definition Map_delete :: "store \<Rightarrow> ref \<Rightarrow> string \<Rightarrow> store" where
  "Map_delete s r k = s[r := filter (\<lambda>(k', _). k' \<noteq> k) (s ! r)]"

definition Map_values :: "store \<Rightarrow> ref \<Rightarrow> data_source_connection list" where
  "Map_values s r = map snd (s ! r)"

text \<open>
  The loop over \<^verbatim>\<open>INTERNAL_SQL_ENGINES\<close>. That constant (a set of engine names, from
  \<^verbatim>\<open>@/core/datasets/engines\<close>) is a parameter: the list of its elements in iteration order.
\<close>

fun filter_internal :: "string list \<Rightarrow> store \<Rightarrow> ref \<Rightarrow> store" where
  "filter_internal [] s dataConnections = s"
| "filter_internal (engine # rest) s dataConnections =
     (case Map_get s dataConnections engine of
        Some connection \<Rightarrow>
          if length (databases connection) = 0
          then filter_internal rest (Map_delete s dataConnections engine) dataConnections
          else filter_internal rest s dataConnections
      | None \<Rightarrow> filter_internal rest s dataConnections)"

text \<open>
  \<^verbatim>\<open>connectionsAtom\<close>, read with the store \<open>s\<close> in which \<open>shared\<close> is the map held by
  \<^verbatim>\<open>dataConnectionsMapAtom\<close>. The result is the store afterwards and the sorted array.
  A reference that is not in the store does not occur in JavaScript; the model gives
  \<open>None\<close> for it.
\<close>

definition connectionsAtom ::
  "string list \<Rightarrow> store \<Rightarrow> ref \<Rightarrow> (store \<times> data_source_connection list) option" where
  "connectionsAtom INTERNAL_SQL_ENGINES s shared =
     (case Map_new s shared of
        None \<Rightarrow> None
      | Some (s1, dataConnections) \<Rightarrow>
          (let s2 = filter_internal INTERNAL_SQL_ENGINES s1 dataConnections
           in Some (s2,
                sortBy (\<lambda>connection.
                          if conn_name connection \<in> set INTERNAL_SQL_ENGINES then 1 else 0)
                  (Map_values s2 dataConnections))))"

text \<open>The map that holds an array of connections under their names.\<close>

definition by_name :: "data_source_connection list \<Rightarrow> conn_map" where
  "by_name cs = map (\<lambda>c. (conn_name c, c)) cs"

text \<open>A connections map is keyed by the names of its connections, each key once.\<close>

definition keyed_by_name :: "conn_map \<Rightarrow> bool" where
  "keyed_by_name m = (distinct (map fst m) \<and> list_all (\<lambda>(k, c). k = conn_name c) m)"

subsection \<open>getCode\<close>

text \<open>
  \<^verbatim>\<open>getCode\<close> of \<^verbatim>\<open>handleAddTable\<close>. Two helpers are not among the sources and are
  parameters: \<^verbatim>\<open>sqlCode\<close> (from \<^verbatim>\<open>./utils\<close>), which returns a string, and
  \<^verbatim>\<open>logNever\<close> (from \<^verbatim>\<open>@/utils/assertNever\<close>), which either returns (\<open>None\<close>) or throws
  (\<open>Some e\<close>). A thrown error is \<open>Inl\<close>, a returned snippet \<open>Inr\<close>.
\<close>

definition getCode ::
  "(string \<Rightarrow> 'e option) \<Rightarrow>
   (data_table \<Rightarrow> string \<Rightarrow> sql_table_context option \<Rightarrow> string) \<Rightarrow>
   data_table \<Rightarrow> sql_table_context option \<Rightarrow> 'e + string" where
  "getCode logNever sqlCode table sqlTableContext =
     (if source_type table = ''catalog'' then
        (let identifier =
               (case sqlTableContext of
                  Some c \<Rightarrow>
                    if ctx_database c \<noteq> [] then ctx_database c @ ''.'' @ tbl_name table
                    else tbl_name table
                | None \<Rightarrow> tbl_name table)
         in Inr (template (tbl_engine table) @ ''.load_table('' @ [CHR 0x22] @ identifier
                   @ [CHR 0x22] @ '')''))
      else if sqlTableContext \<noteq> None then Inr (sqlCode table ''*'' sqlTableContext)
      else if source_type table = ''local'' then
        Inr (''mo.ui.table('' @ tbl_name table @ '')'')
      else if source_type table = ''duckdb'' \<or> source_type table = ''connection'' then
        Inr (sqlCode table ''*'' sqlTableContext)
      else
        (case logNever (source_type table) of
           Some e \<Rightarrow> Inl e
         | None \<Rightarrow> Inr []))"

subsection \<open>DatabaseItem and SchemaItem\<close>

text \<open>
  Both components hold \<^verbatim>\<open>isExpanded\<close> and \<^verbatim>\<open>isSelected\<close>, both \<open>false\<close> at first, and
  run \<^verbatim>\<open>setIsExpanded(hasSearch)\<close> in an effect with the dependency \<^verbatim>\<open>[hasSearch]\<close>. React
  runs such an effect after the first render and after each render in which the
  dependency differs from the one of the previous render; \<open>last_hasSearch\<close> is that
  previous value. \<^verbatim>\<open>onSelect\<close> negates both flags.
\<close>

record item_state =
  isExpanded :: bool
  isSelected :: bool
  last_hasSearch :: "bool option"

datatype item_event = Node_Render bool | Node_Select

definition item_init :: item_state where
  "item_init = \<lparr>isExpanded = False, isSelected = False, last_hasSearch = None\<rparr>"

fun item_step :: "item_state \<Rightarrow> item_event \<Rightarrow> item_state" where
  "item_step st (Node_Render hasSearch) =
     (if last_hasSearch st = Some hasSearch then st
      else st\<lparr>isExpanded := hasSearch, last_hasSearch := Some hasSearch\<rparr>)"
| "item_step st Node_Select =
     st\<lparr>isExpanded := \<not> isExpanded st, isSelected := \<not> isSelected st\<rparr>"

definition DatabaseItem :: "item_event list \<Rightarrow> item_state" where
  "DatabaseItem evs = foldl item_step item_init evs"

definition SchemaItem :: "item_event list \<Rightarrow> item_state" where
  "SchemaItem evs = foldl item_step item_init evs"

subsection \<open>TableList\<close>

text \<open>
  The props of one render. \<^verbatim>\<open>sqlTableContext\<close> is an object, compared by identity in the
  dependency array: it is a pair of the object's identity and its fields.
\<close>

record table_list_props =
  tl_tables :: "data_table list"
  tl_sqlTableContext :: "(nat \<times> sql_table_context) option"

text \<open>
  What \<^verbatim>\<open>PreviewSQLTableList.request\<close> resolves with: nothing (\<^verbatim>\<open>null\<close> or
  \<^verbatim>\<open>undefined\<close>), or an object whose \<^verbatim>\<open>tables\<close> may be absent. \<open>tables_of\<close> is
  \<^verbatim>\<open>previewTableList?.tables\<close>; an empty array is an array, which is truthy.
\<close>

datatype preview_table_list = NoTableList | TableListResult "data_table list option"

fun tables_of :: "preview_table_list \<Rightarrow> data_table list option" where
  "tables_of NoTableList = None"
| "tables_of (TableListResult ts) = ts"

text \<open>
  The state of one mounted \<^verbatim>\<open>TableList\<close>: the two \<^verbatim>\<open>useState\<close> flags, the dependency
  array of the last render, the runs of the asynchronous function suspended at the \<^verbatim>\<open>await\<close>
  (each with the context of its closure), and what the runs did so far: the requests
  sent, the calls of \<^verbatim>\<open>addTableList\<close>, the errors thrown.
\<close>

type_synonym table_list_deps = "nat \<times> nat option \<times> bool"

record table_list_state =
  tablesRequested :: bool
  tablesLoading :: bool
  tl_deps :: "table_list_deps option"
  tl_pending :: "sql_table_context list"
  tl_requests :: "(string \<times> string \<times> string) list"
  tl_added :: "(data_table list \<times> sql_table_context) list"
  tl_thrown :: "string list"

datatype table_list_event =
  TL_Render table_list_props
| TL_Resolve preview_table_list
| TL_Reject string

definition TableList_init :: table_list_state where
  "TableList_init =
     \<lparr>tablesRequested = False, tablesLoading = False, tl_deps = None, tl_pending = [],
      tl_requests = [], tl_added = [], tl_thrown = []\<rparr>"

text \<open>
  \<^verbatim>\<open>useAsyncData\<close> (\<^verbatim>\<open>@/hooks/useAsyncData\<close>) is not among the sources. Whether it runs
  the asynchronous function after a render is the parameter \<open>runs\<close>, a function of the
  dependency array of the previous render (\<open>None\<close> at the first render) and of the one
  of this render. An effect of React runs when the two differ, which is
  \<open>deps_changed\<close>.
\<close>

definition deps_changed :: "'d option \<Rightarrow> 'd \<Rightarrow> bool" where
  "deps_changed previous deps = (previous \<noteq> Some deps)"

text \<open>
  One step of a mounted \<^verbatim>\<open>TableList\<close>: a render with its props, after which the
  asynchronous function may run up to its \<^verbatim>\<open>await\<close>; or the response to the oldest
  pending request, with which that run goes on; or the failure of that request. The
  dependency array is \<^verbatim>\<open>[tables.length, sqlTableContext, tablesRequested]\<close>. The function
  reads the props and the state of the render it runs after, and a state setter it calls
  has taken effect at the next render.
\<close>

fun TableList_step ::
  "(table_list_deps option \<Rightarrow> table_list_deps \<Rightarrow> bool) \<Rightarrow>
   table_list_state \<Rightarrow> table_list_event \<Rightarrow> table_list_state" where
  "TableList_step runs st (TL_Render p) =
     (let deps = (length (tl_tables p), map_option fst (tl_sqlTableContext p),
                  tablesRequested st)
      in if \<not> runs (tl_deps st) deps then st\<lparr>tl_deps := Some deps\<rparr>
         else
           (case tl_sqlTableContext p of
              Some (_, c) \<Rightarrow>
                if length (tl_tables p) = 0 \<and> \<not> tablesRequested st
                then st\<lparr>tl_deps := Some deps, tablesRequested := True, tablesLoading := True,
                        tl_requests :=
                          tl_requests st @ [(ctx_engine c, ctx_database c, ctx_schema c)],
                        tl_pending := tl_pending st @ [c]\<rparr>
                else st\<lparr>tl_deps := Some deps\<rparr>
            | None \<Rightarrow> st\<lparr>tl_deps := Some deps\<rparr>))"
| "TableList_step runs st (TL_Resolve previewTableList) =
     (case tl_pending st of
        [] \<Rightarrow> st
      | c # rest \<Rightarrow>
          (case tables_of previewTableList of
             None \<Rightarrow>
               st\<lparr>tl_pending := rest, tablesLoading := False,
                  tl_thrown := tl_thrown st @ [''No tables available'']\<rparr>
           | Some ts \<Rightarrow>
               st\<lparr>tl_pending := rest, tl_added := tl_added st @ [(ts, c)],
                  tablesLoading := False\<rparr>))"
| "TableList_step runs st (TL_Reject e) =
     (case tl_pending st of
        [] \<Rightarrow> st
      | c # rest \<Rightarrow> st\<lparr>tl_pending := rest, tl_thrown := tl_thrown st @ [e]\<rparr>)"

definition TableList ::
  "(table_list_deps option \<Rightarrow> table_list_deps \<Rightarrow> bool) \<Rightarrow>
   table_list_event list \<Rightarrow> table_list_state" where
  "TableList runs evs = foldl (TableList_step runs) TableList_init evs"

text \<open>
  What a render returns. \<open>isPending\<close> and \<open>error\<close> are the outputs of \<^verbatim>\<open>useAsyncData\<close>
  at that render.
\<close>

datatype node_view = LoadingState string | ErrorState string | EmptyState string | Items

definition TableList_view ::
  "bool \<Rightarrow> string option \<Rightarrow> table_list_state \<Rightarrow> table_list_props \<Rightarrow> node_view" where
  "TableList_view isPending error st p =
     (if isPending \<or> tablesLoading st then LoadingState ''Loading tables...''
      else
        (case error of
           Some e \<Rightarrow> ErrorState e
         | None \<Rightarrow>
             if length (tl_tables p) = 0 then EmptyState ''No tables found'' else Items))"

text \<open>
  Modelled from the spec: \<^verbatim>\<open>useAsyncData\<close> (\<^verbatim>\<open>@/hooks/useAsyncData\<close>) is not among the
  sources, so what it reports as \<^verbatim>\<open>isPending\<close> and \<^verbatim>\<open>error\<close> follows section 4.3 of the
  specification. The node is loading from the moment a fetch is requested until it
  completes or fails: \<^verbatim>\<open>isPending\<close> holds while a run of the function is suspended at
  its \<^verbatim>\<open>await\<close>. Any fetch failure becomes the error state of the node, and nothing
  retries or clears it: \<^verbatim>\<open>error\<close> is the error that a run of the function threw last.
\<close>

definition useAsyncData_isPending :: "table_list_state \<Rightarrow> bool" where
  "useAsyncData_isPending st = (tl_pending st \<noteq> [])"

definition useAsyncData_error :: "table_list_state \<Rightarrow> string option" where
  "useAsyncData_error st =
     (case tl_thrown st of [] \<Rightarrow> None | e # es \<Rightarrow> Some (last (e # es)))"

text \<open>What a mounted \<^verbatim>\<open>TableList\<close> in the state \<open>st\<close> renders for the props \<open>p\<close>.\<close>

definition TableList_render :: "table_list_state \<Rightarrow> table_list_props \<Rightarrow> node_view" where
  "TableList_render st p =
     TableList_view (useAsyncData_isPending st) (useAsyncData_error st) st p"

text \<open>
  The states of a mounted \<^verbatim>\<open>TableList\<close>: before the request nothing is pending, thrown
  or added; after it there is one request, and while it is pending the node is loading
  and still nothing is thrown or added.
\<close>

definition TableList_inv :: "table_list_state \<Rightarrow> bool" where
  "TableList_inv st =
     (if tablesRequested st
      then length (tl_requests st) = 1 \<and>
           (tl_pending st = [] \<or>
            (length (tl_pending st) = 1 \<and> tablesLoading st \<and> tl_thrown st = [] \<and>
             tl_added st = []))
      else tl_requests st = [] \<and> tl_pending st = [] \<and> tl_thrown st = [] \<and>
           tl_added st = [])"

subsection \<open>DatasetTableItem\<close>

text \<open>
  The props of one render, what \<^verbatim>\<open>PreviewSQLTable.request\<close> resolves with
  (\<open>table_of\<close> is \<^verbatim>\<open>previewTable?.table\<close>), and the state of one mounted
  \<^verbatim>\<open>DatasetTableItem\<close>, as for \<^verbatim>\<open>TableList\<close>. The context is not in the dependency
  array here, so its identity plays no role.
\<close>

record table_item_props =
  ti_table :: data_table
  ti_sqlTableContext :: "sql_table_context option"

datatype preview_table = NoTable | TableResult "data_table option"

fun table_of :: "preview_table \<Rightarrow> data_table option" where
  "table_of NoTable = None"
| "table_of (TableResult t) = t"

type_synonym table_item_deps = "bool \<times> bool"

record table_item_state =
  tbl_isExpanded :: bool
  tableDetailsRequested :: bool
  ti_deps :: "table_item_deps option"
  ti_pending :: "sql_table_context list"
  ti_requests :: "(string \<times> string \<times> string \<times> string) list"
  ti_added :: "(data_table \<times> sql_table_context) list"
  ti_thrown :: "string list"

datatype table_item_event =
  TI_Render table_item_props
| TI_Select
| TI_Resolve preview_table
| TI_Reject string

definition DatasetTableItem_init :: table_item_state where
  "DatasetTableItem_init =
     \<lparr>tbl_isExpanded = False, tableDetailsRequested = False, ti_deps = None,
      ti_pending = [], ti_requests = [], ti_added = [], ti_thrown = []\<rparr>"

text \<open>
  One step of a mounted \<^verbatim>\<open>DatasetTableItem\<close>, with \<^verbatim>\<open>useAsyncData\<close> as above and the
  dependency array \<^verbatim>\<open>[isExpanded, tableDetailsExist]\<close>. \<^verbatim>\<open>onSelect\<close> negates
  \<^verbatim>\<open>isExpanded\<close>.
\<close>

fun DatasetTableItem_step ::
  "(table_item_deps option \<Rightarrow> table_item_deps \<Rightarrow> bool) \<Rightarrow>
   table_item_state \<Rightarrow> table_item_event \<Rightarrow> table_item_state" where
  "DatasetTableItem_step runs st (TI_Render p) =
     (let tableDetailsExist = (length (columns (ti_table p)) > 0);
          deps = (tbl_isExpanded st, tableDetailsExist)
      in if \<not> runs (ti_deps st) deps then st\<lparr>ti_deps := Some deps\<rparr>
         else
           (case ti_sqlTableContext p of
              Some c \<Rightarrow>
                if tbl_isExpanded st \<and> \<not> tableDetailsExist \<and> \<not> tableDetailsRequested st
                then st\<lparr>ti_deps := Some deps, tableDetailsRequested := True,
                        ti_requests :=
                          ti_requests st @
                            [(ctx_engine c, ctx_database c, ctx_schema c,
                              tbl_name (ti_table p))],
                        ti_pending := ti_pending st @ [c]\<rparr>
                else st\<lparr>ti_deps := Some deps\<rparr>
            | None \<Rightarrow> st\<lparr>ti_deps := Some deps\<rparr>))"
| "DatasetTableItem_step runs st TI_Select = st\<lparr>tbl_isExpanded := \<not> tbl_isExpanded st\<rparr>"
| "DatasetTableItem_step runs st (TI_Resolve previewTable) =
     (case ti_pending st of
        [] \<Rightarrow> st
      | c # rest \<Rightarrow>
          (case table_of previewTable of
             None \<Rightarrow>
               st\<lparr>ti_pending := rest,
                  ti_thrown := ti_thrown st @ [''No table details available'']\<rparr>
           | Some t \<Rightarrow> st\<lparr>ti_pending := rest, ti_added := ti_added st @ [(t, c)]\<rparr>))"
| "DatasetTableItem_step runs st (TI_Reject e) =
     (case ti_pending st of
        [] \<Rightarrow> st
      | c # rest \<Rightarrow> st\<lparr>ti_pending := rest, ti_thrown := ti_thrown st @ [e]\<rparr>)"

definition DatasetTableItem ::
  "(table_item_deps option \<Rightarrow> table_item_deps \<Rightarrow> bool) \<Rightarrow>
   table_item_event list \<Rightarrow> table_item_state" where
  "DatasetTableItem runs evs = foldl (DatasetTableItem_step runs) DatasetTableItem_init evs"

subsection \<open>Engine: the refresh button\<close>






subsection \<open>Sample values\<close>

text \<open>A table with a name, a source kind and a declaring variable, and nothing else.\<close>

definition tbl :: "string \<Rightarrow> string \<Rightarrow> opt_string \<Rightarrow> data_table" where
  "tbl n k v =
     \<lparr>tbl_name = n, source_type = k, tbl_engine = Undefined, variable_name = v,
      columns = []\<rparr>"

text \<open>
  Stand-ins for the two helpers of \<^verbatim>\<open>getCode\<close> in closed examples: a \<^verbatim>\<open>sqlCode\<close>
  that returns some query text, a \<^verbatim>\<open>logNever\<close> that logs and returns, and one that
  throws what it is given.
\<close>

definition sqlCode_sample ::
  "data_table \<Rightarrow> string \<Rightarrow> sql_table_context option \<Rightarrow> string" where
  "sqlCode_sample t columnName c = ''SELECT '' @ columnName @ '' FROM '' @ tbl_name t"

definition logNever_logs :: "string \<Rightarrow> string option" where
  "logNever_logs k = None"

definition logNever_throws :: "string \<Rightarrow> string option" where
  "logNever_throws k = Some k"

definition ctx_sample :: "string \<Rightarrow> sql_table_context" where
  "ctx_sample d =
     \<lparr>ctx_engine = ''engine'', ctx_database = d, ctx_schema = ''main'',
      defaultSchema = Undefined, defaultDatabase = Undefined\<rparr>"

text \<open>A connection with a name and a number of databases, and nothing else.\<close>

definition conn :: "string \<Rightarrow> nat \<Rightarrow> data_source_connection" where
  "conn n k =
     \<lparr>conn_name = n, dialect = ''duckdb'',
      databases = replicate k \<lparr>db_name = ''memory'', schemas = []\<rparr>,
      default_database = Undefined, default_schema = Undefined\<rparr>"

text \<open>
  Sample values of \<^verbatim>\<open>INTERNAL_SQL_ENGINES\<close> and of the shared connections map: two
  internal engines, one with a database and one without, and two connections of the
  user.
\<close>

definition internal_sample :: "string list" where
  "internal_sample = [''__marimo_duckdb'', ''__marimo_clickhouse'']"

definition map_sample :: conn_map where
  "map_sample =
     by_name [conn ''__marimo_duckdb'' 1, conn ''pg'' 0, conn ''__marimo_clickhouse'' 0,
              conn ''mysql'' 2]"

section \<open>Properties\<close>

subsection \<open>Table ordering\<close>

lemma indexOf_ge: "- 1 \<le> indexOf xs x"
  by (induction xs) (auto simp: Let_def)

lemma indexOf_notin: "(indexOf xs x = - 1) = (x \<notin> set xs)"
proof (induction xs)
  case Nil
  show ?case by simp
next
  case (Cons y ys)
  have "- 1 \<le> indexOf ys x" by (rule indexOf_ge)
  with Cons show ?case by (auto simp: Let_def)
qed

lemma indexOf_first:
  "i < length xs \<Longrightarrow> xs ! i = x \<Longrightarrow> x \<notin> set (take i xs) \<Longrightarrow> indexOf xs x = int i"
proof (induction xs arbitrary: i)
  case Nil
  then show ?case by simp
next
  case (Cons y ys)
  show ?case
  proof (cases i)
    case 0
    with Cons.prems show ?thesis by simp
  next
    case (Suc j)
    with Cons.prems have ne: "y \<noteq> x" and j: "j < length ys" "ys ! j = x" "x \<notin> set (take j ys)"
      by auto
    from Cons.IH [OF j] have "indexOf ys x = int j" .
    with ne Suc show ?thesis by (simp add: Let_def)
  qed
qed

lemma insort_key_append_low:
  "\<forall>a\<in>set as. f a < f x \<Longrightarrow> insort_key f x (as @ bs) = as @ insort_key f x bs"
  by (induction as) auto

lemma sort_key_min_first:
  "\<forall>x\<in>set xs. m \<le> f x \<Longrightarrow>
   sort_key f xs = filter (\<lambda>x. f x = m) xs @ sort_key f (filter (\<lambda>x. f x \<noteq> m) xs)"
proof (induction xs)
  case Nil
  show ?case by simp
next
  case (Cons x xs)
  then have IH: "sort_key f xs = filter (\<lambda>x. f x = m) xs @ sort_key f (filter (\<lambda>x. f x \<noteq> m) xs)"
    and low: "\<forall>y\<in>set xs. m \<le> f y" and mx: "m \<le> f x"
    by auto
  show ?case
  proof (cases "f x = m")
    case True
    have "\<forall>y\<in>set (sort_key f xs). f x \<le> f y" using low True by simp
    then have "insort_key f x (sort_key f xs) = x # sort_key f xs"
      by (rule insort_is_Cons)
    with True IH show ?thesis by simp
  next
    case False
    with mx have "\<forall>a\<in>set (filter (\<lambda>x. f x = m) xs). f a < f x" by auto
    from insort_key_append_low [OF this] False IH show ?thesis by simp
  qed
qed

lemma tableIndex_ge: "- 1 \<le> tableIndex vs ids t"
proof -
  have "- 1 \<le> indexOf ids c" for c by (rule indexOf_ge)
  then show ?thesis
    by (auto simp: tableIndex_def Let_def split: option.splits list.splits
        intro: order_trans [of "- 1" "indexOf ids _"])
qed

lemma tableIndex_minus1: "(tableIndex vs ids t = - 1) = (\<not> truthy (variable_name t))"
  by (auto simp: tableIndex_def Let_def split: option.splits list.splits)

lemma tableIndex_known:
  assumes "truthy (variable_name t)"
    and "find (\<lambda>v. Str (var_name v) = variable_name t) vs = Some v"
    and "declaredBy v = c # cs"
    and "i < length ids" and "ids ! i = c" and "c \<notin> set (take i ids)"
  shows "tableIndex vs ids t = int i"
proof -
  have "indexOf ids c = int i" using assms(4-6) by (rule indexOf_first)
  with assms(1-3) show ?thesis by (simp add: tableIndex_def Let_def)
qed

lemma tableIndex_unknown:
  assumes "truthy (variable_name t)"
    and "find (\<lambda>v. Str (var_name v) = variable_name t) vs = Some v"
    and "declaredBy v = [] \<or> hd (declaredBy v) \<notin> set ids"
  shows "tableIndex vs ids t = 0"
  using assms by (auto simp: tableIndex_def Let_def indexOf_notin split: list.splits)

lemma sortedTables_split:
  "sortedTablesAtom ts vs ids =
     filter (\<lambda>t. \<not> truthy (variable_name t)) ts @
     sortedTablesAtom (filter (\<lambda>t. truthy (variable_name t)) ts) vs ids"
proof -
  have "\<forall>t\<in>set ts. - 1 \<le> tableIndex vs ids t" by (simp add: tableIndex_ge)
  from sort_key_min_first [OF this]
  show ?thesis by (simp add: sortedTablesAtom_def sortBy_def tableIndex_minus1)
qed


text \<open>
  C5: the sorted list of tables is a permutation of the input, in ascending order of
  the sort index, and stable: tables of equal index keep their relative order. Tables
  without a declaring variable (index \<open>-1\<close>) come first, before every table that has
  one (index at least \<open>0\<close>). A table whose variable is not among the variables, or whose
  variable has no declaring cell in the cell order, has index \<open>0\<close>; any other table has
  the position of its declaring cell in the cell order.
\<close>

theorem sortedTablesAtom_order:
  "sorted (map (tableIndex vs ids) (sortedTablesAtom ts vs ids))
   \<and> mset (sortedTablesAtom ts vs ids) = mset ts
   \<and> filter (\<lambda>t. tableIndex vs ids t = k) (sortedTablesAtom ts vs ids) =
       filter (\<lambda>t. tableIndex vs ids t = k) ts
   \<and> sortedTablesAtom ts vs ids =
       filter (\<lambda>t. \<not> truthy (variable_name t)) ts @
       sortedTablesAtom (filter (\<lambda>t. truthy (variable_name t)) ts) vs ids
   \<and> (\<not> truthy (variable_name t) \<longrightarrow> tableIndex vs ids t = - 1)
   \<and> (truthy (variable_name t) \<longrightarrow> 0 \<le> tableIndex vs ids t)
   \<and> (truthy (variable_name t) \<longrightarrow>
        find (\<lambda>v. Str (var_name v) = variable_name t) vs = None \<longrightarrow>
        tableIndex vs ids t = 0)
   \<and> (truthy (variable_name t) \<longrightarrow>
        find (\<lambda>v. Str (var_name v) = variable_name t) vs = Some v \<longrightarrow>
        declaredBy v = [] \<or> hd (declaredBy v) \<notin> set ids \<longrightarrow>
        tableIndex vs ids t = 0)
   \<and> (truthy (variable_name t) \<longrightarrow>
        find (\<lambda>v. Str (var_name v) = variable_name t) vs = Some v \<longrightarrow>
        declaredBy v = c # cs \<longrightarrow> i < length ids \<longrightarrow> ids ! i = c \<longrightarrow>
        c \<notin> set (take i ids) \<longrightarrow>
        tableIndex vs ids t = int i)"
proof -
  have srt: "sorted (map (tableIndex vs ids) (sortedTablesAtom ts vs ids))"
    by (simp add: sortedTablesAtom_def sortBy_def)
  have perm: "mset (sortedTablesAtom ts vs ids) = mset ts"
    by (simp add: sortedTablesAtom_def sortBy_def)
  have stable: "filter (\<lambda>t. tableIndex vs ids t = k) (sortedTablesAtom ts vs ids) =
       filter (\<lambda>t. tableIndex vs ids t = k) ts"
    unfolding sortedTablesAtom_def sortBy_def by (rule sort_key_stable)
  have nonneg: "truthy (variable_name t) \<Longrightarrow> 0 \<le> tableIndex vs ids t"
    using tableIndex_ge [of vs ids t] tableIndex_minus1 [of vs ids t] by arith
  have unresolved: "truthy (variable_name t) \<Longrightarrow>
        find (\<lambda>v. Str (var_name v) = variable_name t) vs = None \<Longrightarrow>
        tableIndex vs ids t = 0"
    by (simp add: tableIndex_def)
  from srt perm stable nonneg unresolved show ?thesis
    using sortedTables_split [of ts vs ids] tableIndex_minus1 [of vs ids t]
      tableIndex_unknown [of t vs v ids] tableIndex_known [of t vs v c cs i ids]
    by blast
qed

text \<open>
  The example of the specification: A is declared by the variable x in the cell at
  position 2, B has no variable, C is declared by y in the cell at position 1. The
  order is B, C, A.
\<close>

theorem sortedTablesAtom_order_witness:
  "sortedTablesAtom
     [tbl ''A'' ''local'' (Str ''x''), tbl ''B'' ''local'' Undefined, tbl ''C'' ''local'' (Str ''y'')]
     [\<lparr>var_name = ''x'', declaredBy = [''c2'']\<rparr>, \<lparr>var_name = ''y'', declaredBy = [''c1'']\<rparr>]
     [''c0'', ''c1'', ''c2'']
   = [tbl ''B'' ''local'' Undefined, tbl ''C'' ''local'' (Str ''y''), tbl ''A'' ''local'' (Str ''x'')]
   \<and> tableIndex
       [\<lparr>var_name = ''x'', declaredBy = [''c2'']\<rparr>, \<lparr>var_name = ''y'', declaredBy = [''c1'']\<rparr>]
       [''c0'', ''c1'', ''c2''] (tbl ''A'' ''local'' (Str ''x'')) = 2"
  using sortedTablesAtom_order
    [of "[\<lparr>var_name = ''x'', declaredBy = [''c2'']\<rparr>, \<lparr>var_name = ''y'', declaredBy = [''c1'']\<rparr>]"
        "[''c0'', ''c1'', ''c2'']"
        "[tbl ''A'' ''local'' (Str ''x''), tbl ''B'' ''local'' Undefined, tbl ''C'' ''local'' (Str ''y'')]"
        0
        "tbl ''A'' ''local'' (Str ''x'')"
        "\<lparr>var_name = ''x'', declaredBy = [''c2'']\<rparr>" "''c2''" "[]" 2]
  by (simp add: tbl_def sortedTablesAtom_def sortBy_def tableIndex_def)

subsection \<open>Snippet generation\<close>

text \<open>
  C7: for a catalog table under a SQL context with a database name, the snippet is
  the \<^verbatim>\<open>load_table\<close> call of the table's engine on the identifier made of the database
  name, a dot and the table name; for a local table without SQL context it is
  \<^verbatim>\<open>mo.ui.table\<close> applied to the table's name.
\<close>

theorem getCode_catalog_local:
  "(source_type t = ''catalog'' \<longrightarrow> ctx_database c \<noteq> [] \<longrightarrow>
      getCode logNever sqlCode t (Some c) =
        Inr (template (tbl_engine t) @ ''.load_table('' @ [CHR 0x22] @
             ctx_database c @ ''.'' @ tbl_name t @ [CHR 0x22] @ '')''))
   \<and> (source_type t' = ''local'' \<longrightarrow>
      getCode logNever sqlCode t' None = Inr (''mo.ui.table('' @ tbl_name t' @ '')''))"
  by (simp add: getCode_def)

theorem getCode_catalog_local_witness:
  "getCode logNever_throws sqlCode_sample
     ((tbl ''t'' ''catalog'' Undefined)\<lparr>tbl_engine := Str ''catalog''\<rparr>)
     (Some (ctx_sample ''d''))
   = Inr (''catalog.load_table('' @ [CHR 0x22] @ ''d.t'' @ [CHR 0x22] @ '')'')
   \<and> getCode logNever_throws sqlCode_sample (tbl ''df'' ''local'' (Str ''df'')) None
   = Inr ''mo.ui.table(df)''"
  using getCode_catalog_local
    [of "(tbl ''t'' ''catalog'' Undefined)\<lparr>tbl_engine := Str ''catalog''\<rparr>"
        "ctx_sample ''d''" logNever_throws sqlCode_sample "tbl ''df'' ''local'' (Str ''df'')"]
  by (simp add: tbl_def ctx_sample_def)

text \<open>
  C1, as stated, fails: a table of the unhandled kind \<^verbatim>\<open>iceberg\<close> under a SQL context
  gets the query snippet even when \<^verbatim>\<open>logNever\<close> would throw, and without a SQL context,
  with a \<^verbatim>\<open>logNever\<close> that returns, the snippet is the empty string.
\<close>

theorem getCode_unhandled_counterexample:
  "getCode logNever_throws sqlCode_sample (tbl ''t'' ''iceberg'' Undefined)
     (Some (ctx_sample ''d'')) = Inr ''SELECT * FROM t''
   \<and> getCode logNever_logs sqlCode_sample (tbl ''t'' ''iceberg'' Undefined) None = Inr []"
  by (simp add: getCode_def tbl_def ctx_sample_def sqlCode_sample_def logNever_logs_def)

text \<open>
  C1, amended: for a table whose source kind is none of catalog, local, duckdb and
  connection, \<^verbatim>\<open>getCode\<close> under a SQL context returns what \<^verbatim>\<open>sqlCode\<close> returns for all
  columns; without a SQL context it passes the kind to \<^verbatim>\<open>logNever\<close> and, when that
  returns, returns the empty string. An error comes out only if \<^verbatim>\<open>logNever\<close> throws it.
\<close>

theorem getCode_unhandled:
  assumes "source_type t \<notin> {''catalog'', ''local'', ''duckdb'', ''connection''}"
  shows "getCode logNever sqlCode t (Some c) = Inr (sqlCode t ''*'' (Some c))
   \<and> getCode logNever sqlCode t None =
       (case logNever (source_type t) of Some e \<Rightarrow> Inl e | None \<Rightarrow> Inr [])"
  using assms by (simp add: getCode_def)

theorem getCode_unhandled_witness:
  "getCode logNever_logs sqlCode_sample (tbl ''t'' ''iceberg'' Undefined)
     (Some (ctx_sample ''d'')) =
     Inr (sqlCode_sample (tbl ''t'' ''iceberg'' Undefined) ''*'' (Some (ctx_sample ''d'')))
   \<and> getCode logNever_logs sqlCode_sample (tbl ''t'' ''iceberg'' Undefined) None = Inr []"
proof -
  have k: "source_type (tbl ''t'' ''iceberg'' Undefined) \<notin>
             {''catalog'', ''local'', ''duckdb'', ''connection''}"
    by (simp add: tbl_def)
  from getCode_unhandled [OF k, of logNever_logs sqlCode_sample "ctx_sample ''d''"]
  show ?thesis by (simp add: logNever_logs_def)
qed

subsection \<open>Expansion under search\<close>

lemma item_run_snoc: "foldl item_step st (evs @ [e]) = item_step (foldl item_step st evs) e"
  by simp

text \<open>
  C2, as stated, fails: a node expanded by hand before the search is collapsed when the
  search ends; it does not return to the value it had.
\<close>

theorem search_off_counterexample:
  "isExpanded (DatabaseItem [Node_Render False, Node_Select]) = True
   \<and> isExpanded (DatabaseItem [Node_Render False, Node_Select, Node_Render True]) = True
   \<and> isExpanded (DatabaseItem
        [Node_Render False, Node_Select, Node_Render True, Node_Render False]) = False
   \<and> isExpanded (SchemaItem [Node_Render False, Node_Select]) = True
   \<and> isExpanded (SchemaItem
        [Node_Render False, Node_Select, Node_Render True, Node_Render False]) = False"
  by (simp add: DatabaseItem_def SchemaItem_def item_init_def)

text \<open>
  C2, amended: whenever the search-active signal of a render differs from the one of
  the previous render (or the node is new), the expanded flag of a database or schema
  node becomes the signal's value: true when the search turns on, false when it turns
  off. A render with the signal unchanged leaves the node as it is, and a selection
  negates the flag.
\<close>

theorem search_forces_expanded:
  "(last_hasSearch (DatabaseItem evs) \<noteq> Some h \<longrightarrow>
      isExpanded (DatabaseItem (evs @ [Node_Render h])) = h)
   \<and> (last_hasSearch (DatabaseItem evs) = Some h \<longrightarrow>
      DatabaseItem (evs @ [Node_Render h]) = DatabaseItem evs)
   \<and> last_hasSearch (DatabaseItem (evs @ [Node_Render h])) = Some h
   \<and> last_hasSearch (DatabaseItem (evs @ [Node_Select])) = last_hasSearch (DatabaseItem evs)
   \<and> isExpanded (DatabaseItem (evs @ [Node_Select])) = (\<not> isExpanded (DatabaseItem evs))
   \<and> (last_hasSearch (SchemaItem evs) \<noteq> Some h \<longrightarrow>
      isExpanded (SchemaItem (evs @ [Node_Render h])) = h)
   \<and> (last_hasSearch (SchemaItem evs) = Some h \<longrightarrow>
      SchemaItem (evs @ [Node_Render h]) = SchemaItem evs)
   \<and> last_hasSearch (SchemaItem (evs @ [Node_Render h])) = Some h
   \<and> last_hasSearch (SchemaItem (evs @ [Node_Select])) = last_hasSearch (SchemaItem evs)
   \<and> isExpanded (SchemaItem (evs @ [Node_Select])) = (\<not> isExpanded (SchemaItem evs))"
  unfolding DatabaseItem_def SchemaItem_def item_run_snoc by simp

theorem search_forces_expanded_witness:
  "isExpanded (DatabaseItem ([Node_Render False, Node_Select, Node_Render True] @
      [Node_Render False])) = False
   \<and> isExpanded (SchemaItem ([Node_Render False] @ [Node_Render True])) = True"
  using search_forces_expanded [of "[Node_Render False, Node_Select, Node_Render True]" False]
    search_forces_expanded [of "[Node_Render False]" True]
  by (simp add: DatabaseItem_def SchemaItem_def item_init_def)

subsection \<open>The visible connections\<close>

lemma filter_internal_frame: "\<exists>m'. filter_internal I s r = s[r := m']"
proof (induction I arbitrary: s)
  case Nil
  have "s = s[r := s ! r]" by simp
  then show ?case by (metis filter_internal.simps(1))
next
  case (Cons e rest)
  show ?case
  proof (cases "\<exists>c. Map_get s r e = Some c \<and> length (databases c) = 0")
    case True
    then have "filter_internal (e # rest) s r = filter_internal rest (Map_delete s r e) r"
      by auto
    moreover obtain m' where "filter_internal rest (Map_delete s r e) r = (Map_delete s r e)[r := m']"
      using Cons.IH by blast
    ultimately have "filter_internal (e # rest) s r = s[r := m']"
      by (simp add: Map_delete_def)
    then show ?thesis ..
  next
    case False
    then have "filter_internal (e # rest) s r = filter_internal rest s r"
      by (auto split: option.splits)
    with Cons.IH show ?thesis by simp
  qed
qed

lemma connectionsAtom_store:
  assumes "shared < length s"
  shows "\<exists>m' out. connectionsAtom I s shared = Some (s @ [m'], out)"
proof -
  obtain m' where "filter_internal I (s @ [s ! shared]) (length s) = (s @ [s ! shared])[length s := m']"
    using filter_internal_frame by blast
  then have "filter_internal I (s @ [s ! shared]) (length s) = s @ [m']" by simp
  with assms show ?thesis by (simp add: connectionsAtom_def Map_new_def Let_def)
qed

lemma filter_internal_nth:
  "r < length s \<Longrightarrow> distinct (map fst (s ! r)) \<Longrightarrow>
   filter_internal I s r =
     s[r := filter (\<lambda>(k, c). \<not> (k \<in> set I \<and> databases c = [])) (s ! r)]"
proof (induction I arbitrary: s)
  case Nil
  then show ?case by simp
next
  case (Cons e rest)
  let ?m = "s ! r"
  show ?case
  proof (cases "map_of ?m e")
    case None
    then have notin: "\<And>k c. (k, c) \<in> set ?m \<Longrightarrow> k \<noteq> e"
      by (metis map_of_eq_None_iff image_eqI fst_conv)
    have "filter (\<lambda>(k, c). \<not> (k \<in> set rest \<and> databases c = [])) ?m =
          filter (\<lambda>(k, c). \<not> (k \<in> set (e # rest) \<and> databases c = [])) ?m"
      by (rule filter_cong) (auto dest: notin)
    with None Cons.IH [OF Cons.prems] show ?thesis by (simp add: Map_get_def)
  next
    case (Some c)
    with Cons.prems(2) have uniq: "\<And>c'. (e, c') \<in> set ?m \<Longrightarrow> c' = c"
      by simp
    show ?thesis
    proof (cases "databases c = []")
      case False
      have "filter (\<lambda>(k, c). \<not> (k \<in> set rest \<and> databases c = [])) ?m =
            filter (\<lambda>(k, c). \<not> (k \<in> set (e # rest) \<and> databases c = [])) ?m"
        by (rule filter_cong) (use False in \<open>auto dest: uniq\<close>)
      with Some False Cons.IH [OF Cons.prems] show ?thesis by (simp add: Map_get_def)
    next
      case True
      let ?s' = "Map_delete s r e"
      have len: "r < length ?s'" using Cons.prems(1) by (simp add: Map_delete_def)
      have nth: "?s' ! r = filter (\<lambda>(k', _). k' \<noteq> e) ?m"
        using Cons.prems(1) by (simp add: Map_delete_def)
      have dist: "distinct (map fst (?s' ! r))"
        unfolding nth using Cons.prems(2) by (rule distinct_map_filter)
      have eq: "filter (\<lambda>(k, c). \<not> (k \<in> set rest \<and> databases c = []))
                  (filter (\<lambda>(k', _). k' \<noteq> e) ?m) =
                filter (\<lambda>(k, c). \<not> (k \<in> set (e # rest) \<and> databases c = [])) ?m"
        unfolding filter_filter by (rule filter_cong) (use True in \<open>auto dest: uniq\<close>)
      have "filter_internal (e # rest) s r = filter_internal rest ?s' r"
        using Some True by (simp add: Map_get_def)
      also have "\<dots> = ?s'[r := filter (\<lambda>(k, c). \<not> (k \<in> set rest \<and> databases c = [])) (?s' ! r)]"
        using len dist by (rule Cons.IH)
      also have "\<dots> = s[r := filter (\<lambda>(k, c). \<not> (k \<in> set (e # rest) \<and> databases c = [])) ?m]"
        unfolding nth eq by (simp add: Map_delete_def)
      finally show ?thesis .
    qed
  qed
qed


lemma sortBy_two_ranks:
  "sortBy (\<lambda>c. if P c then 1 else 0) xs = filter (\<lambda>c. \<not> P c) xs @ filter P xs"
proof -
  let ?f = "\<lambda>c. if P c then 1 else (0::int)"
  have low: "\<forall>x\<in>set xs. 0 \<le> ?f x" by simp
  have "map ?f (filter P xs) = replicate (length (filter P xs)) 1"
    by (induction xs) auto
  then have "sorted (map ?f (filter P xs))" by simp
  then have high: "sort_key ?f (filter P xs) = filter P xs"
    by (rule sort_key_id_if_sorted)
  have a: "filter (\<lambda>x. ?f x = 0) xs = filter (\<lambda>c. \<not> P c) xs"
    by (rule filter_cong) auto
  have b: "filter (\<lambda>x. ?f x \<noteq> 0) xs = filter P xs"
    by (rule filter_cong) auto
  from sort_key_min_first [OF low] show ?thesis
    unfolding sortBy_def a b high .
qed

lemma connectionsAtom_result:
  assumes "shared < length s" and "keyed_by_name (s ! shared)"
  shows "connectionsAtom I s shared =
     Some (s @ [filter (\<lambda>(k, c). \<not> (k \<in> set I \<and> databases c = [])) (s ! shared)],
           filter (\<lambda>c. conn_name c \<notin> set I) (Map_values s shared) @
           filter (\<lambda>c. conn_name c \<in> set I \<and> databases c \<noteq> []) (Map_values s shared))"
proof -
  let ?m = "s ! shared"
  let ?keep = "\<lambda>(k, c). \<not> (k \<in> set I \<and> databases c = [])"
  let ?s1 = "s @ [?m]"
  from assms(2) have dist: "distinct (map fst ?m)"
    and names: "\<And>k c. (k, c) \<in> set ?m \<Longrightarrow> k = conn_name c"
    by (auto simp: keyed_by_name_def list_all_iff)
  have "filter_internal I ?s1 (length s) = ?s1[length s := filter ?keep (?s1 ! length s)]"
    by (rule filter_internal_nth) (simp_all add: dist)
  then have s2: "filter_internal I ?s1 (length s) = s @ [filter ?keep ?m]" by simp
  have "filter ?keep ?m = filter (\<lambda>(k, c). \<not> (conn_name c \<in> set I \<and> databases c = [])) ?m"
    by (rule filter_cong) (auto dest: names)
  then have vals: "map snd (filter ?keep ?m) =
      filter (\<lambda>c. \<not> (conn_name c \<in> set I \<and> databases c = [])) (map snd ?m)"
    by (simp add: filter_map comp_def case_prod_unfold)
  have u: "filter (\<lambda>c. conn_name c \<notin> set I)
             (filter (\<lambda>c. \<not> (conn_name c \<in> set I \<and> databases c = [])) (map snd ?m)) =
           filter (\<lambda>c. conn_name c \<notin> set I) (map snd ?m)"
    unfolding filter_filter by (rule filter_cong) auto
  have v: "filter (\<lambda>c. conn_name c \<in> set I)
             (filter (\<lambda>c. \<not> (conn_name c \<in> set I \<and> databases c = [])) (map snd ?m)) =
           filter (\<lambda>c. conn_name c \<in> set I \<and> databases c \<noteq> []) (map snd ?m)"
    unfolding filter_filter by (rule filter_cong) auto
  have mv: "Map_values (s @ [filter ?keep ?m]) (length s) = map snd (filter ?keep ?m)"
    by (simp add: Map_values_def)
  have "connectionsAtom I s shared =
      Some (filter_internal I ?s1 (length s),
            sortBy (\<lambda>c. if conn_name c \<in> set I then 1 else 0)
              (Map_values (filter_internal I ?s1 (length s)) (length s)))"
    using assms(1) by (simp add: connectionsAtom_def Map_new_def Let_def)
  then show ?thesis
    unfolding s2 mv vals sortBy_two_ranks u v by (simp only: Map_values_def)
qed

lemma keyed_by_name_visible:
  assumes "keyed_by_name m" and that: "\<And>c. \<not> (P c \<and> Q c)"
  shows "keyed_by_name (by_name (filter P (map snd m) @ filter Q (map snd m)))"
proof -
  from assms have dist: "distinct (map fst m)"
    and names: "\<And>k c. (k, c) \<in> set m \<Longrightarrow> k = conn_name c"
    by (auto simp: keyed_by_name_def list_all_iff)
  have "map conn_name (map snd m) = map fst m"
    using names by (force simp: map_eq_conv)
  with dist have d: "distinct (map conn_name (map snd m))" by (simp only:)
  have "distinct (map conn_name (filter P (map snd m)))"
    "distinct (map conn_name (filter Q (map snd m)))"
    using d by (rule distinct_map_filter)+
  moreover have "conn_name ` {x \<in> set (map snd m). P x} \<inter> conn_name ` {x \<in> set (map snd m). Q x} = {}"
  proof -
    have inj: "inj_on conn_name (set (map snd m))"
      using distinct_map [THEN iffD1, OF d] by blast
    show ?thesis using that inj by (auto dest: inj_onD)
  qed
  ultimately have "distinct (map fst (by_name (filter P (map snd m) @ filter Q (map snd m))))"
    by (simp add: by_name_def comp_def)
  moreover have "list_all (\<lambda>(k, c). k = conn_name c)
      (by_name (filter P (map snd m) @ filter Q (map snd m)))"
    by (auto simp: by_name_def list_all_iff)
  ultimately show ?thesis by (simp only: keyed_by_name_def)
qed


lemma keyed_map_sample: "keyed_by_name map_sample"
  by (simp add: keyed_by_name_def map_sample_def by_name_def conn_def)

text \<open>
  C6: for a connections map keyed by name, the visible list is the user-defined
  connections in the order of the map, followed by the internal engines that have a
  database, in the order of the map. So an internal engine without databases is not in
  the list, every user-defined connection stands before every internal engine, and
  within each of the two groups the order of the map is kept.
\<close>

theorem connectionsAtom_visible:
  assumes "shared < length s" and "keyed_by_name (s ! shared)"
  shows "\<exists>s'. connectionsAtom I s shared =
     Some (s', filter (\<lambda>c. conn_name c \<notin> set I) (Map_values s shared) @
               filter (\<lambda>c. conn_name c \<in> set I \<and> databases c \<noteq> []) (Map_values s shared))"
  using connectionsAtom_result [OF assms] by blast

theorem connectionsAtom_visible_witness:
  "\<exists>s'. connectionsAtom internal_sample [map_sample] 0 =
     Some (s', [conn ''pg'' 0, conn ''mysql'' 2, conn ''__marimo_duckdb'' 1])"
proof -
  have a: "0 < length [map_sample]" by simp
  have b: "keyed_by_name ([map_sample] ! 0)" by (simp add: keyed_map_sample)
  from connectionsAtom_visible [OF a b, of internal_sample]
  show ?thesis
    by (simp add: Map_values_def map_sample_def by_name_def internal_sample_def conn_def)
qed

text \<open>
  C8: applying the derivation to a map that holds its own output (each connection
  under its name) gives the same list, hence the same set of connections.
\<close>

theorem connectionsAtom_idempotent:
  assumes "shared < length s" and "keyed_by_name (s ! shared)"
    and "connectionsAtom I s shared = Some (s', out)"
    and "r < length t" and "t ! r = by_name out"
  shows "\<exists>t' out'. connectionsAtom I t r = Some (t', out') \<and> out' = out \<and> set out' = set out"
proof -
  let ?vals = "Map_values s shared"
  let ?U = "filter (\<lambda>c. conn_name c \<notin> set I) ?vals"
  let ?V = "filter (\<lambda>c. conn_name c \<in> set I \<and> databases c \<noteq> []) ?vals"
  from connectionsAtom_result [OF assms(1,2), of I] assms(3)
  have out: "out = ?U @ ?V" by simp
  have keyed: "keyed_by_name (t ! r)"
    unfolding assms(5) out Map_values_def
    by (rule keyed_by_name_visible [OF assms(2)]) simp
  have vals: "Map_values t r = ?U @ ?V"
    by (simp add: Map_values_def assms(5) out by_name_def comp_def)
  have u: "filter (\<lambda>c. conn_name c \<notin> set I) (?U @ ?V) = ?U" by auto
  have "filter (\<lambda>c. conn_name c \<in> set I \<and> databases c \<noteq> []) ?U = []" by auto
  then have v: "filter (\<lambda>c. conn_name c \<in> set I \<and> databases c \<noteq> []) (?U @ ?V) = ?V"
    by simp
  from connectionsAtom_result [OF assms(4) keyed, of I]
  show ?thesis unfolding vals u v out by blast
qed

theorem connectionsAtom_idempotent_witness:
  "\<exists>t' out'. connectionsAtom internal_sample
      [by_name [conn ''pg'' 0, conn ''mysql'' 2, conn ''__marimo_duckdb'' 1]] 0 = Some (t', out')
    \<and> out' = [conn ''pg'' 0, conn ''mysql'' 2, conn ''__marimo_duckdb'' 1]"
proof -
  have a: "0 < length [map_sample]" by simp
  have b: "keyed_by_name ([map_sample] ! 0)" by (simp add: keyed_map_sample)
  have c: "connectionsAtom internal_sample [map_sample] 0 =
      Some ([map_sample,
             by_name [conn ''__marimo_duckdb'' 1, conn ''pg'' 0, conn ''mysql'' 2]],
            [conn ''pg'' 0, conn ''mysql'' 2, conn ''__marimo_duckdb'' 1])"
    by (simp add: connectionsAtom_def Map_new_def Map_get_def Map_delete_def Map_values_def
        sortBy_def map_sample_def by_name_def internal_sample_def conn_def)
  have d: "0 < length [by_name [conn ''pg'' 0, conn ''mysql'' 2, conn ''__marimo_duckdb'' 1]]"
    by simp
  have e: "[by_name [conn ''pg'' 0, conn ''mysql'' 2, conn ''__marimo_duckdb'' 1]] ! 0 =
      by_name [conn ''pg'' 0, conn ''mysql'' 2, conn ''__marimo_duckdb'' 1]"
    by simp
  from connectionsAtom_idempotent [OF a b c d e] show ?thesis by blast
qed

text \<open>
  C10: evaluating the derivation leaves every map of the store as it was, the shared
  connections map among them; the only change to the store is the new map that the
  derivation allocates and filters.
\<close>

theorem connectionsAtom_frame:
  assumes "shared < length s"
  shows "\<exists>s' out. connectionsAtom I s shared = Some (s', out)
     \<and> take (length s) s' = s \<and> s' ! shared = s ! shared"
proof -
  obtain m' out where "connectionsAtom I s shared = Some (s @ [m'], out)"
    using connectionsAtom_store [OF assms] by blast
  moreover have "take (length s) (s @ [m']) = s" by simp
  moreover have "(s @ [m']) ! shared = s ! shared" using assms by (simp add: nth_append)
  ultimately show ?thesis by blast
qed

theorem connectionsAtom_frame_witness:
  "\<exists>s' out. connectionsAtom internal_sample [map_sample] 0 = Some (s', out)
     \<and> take 1 s' = [map_sample] \<and> s' ! 0 = map_sample"
proof -
  have a: "0 < length [map_sample]" by simp
  from connectionsAtom_frame [OF a, of internal_sample] show ?thesis by simp
qed

subsection \<open>Fetching once\<close>

text \<open>A request has been sent only when the flag is set, and there is at most one.\<close>

lemma TableList_step_gate:
  assumes "length (tl_requests st) \<le> 1" and "tl_requests st \<noteq> [] \<longrightarrow> tablesRequested st"
  shows "length (tl_requests (TableList_step runs st e)) \<le> 1
     \<and> (tl_requests (TableList_step runs st e) \<noteq> [] \<longrightarrow>
          tablesRequested (TableList_step runs st e))"
proof (cases e)
  case (TL_Render p)
  with assms show ?thesis
    by (cases "tl_requests st") (auto simp: Let_def split: option.splits prod.splits)
next
  case (TL_Resolve r)
  with assms show ?thesis by (auto split: list.splits option.splits)
next
  case (TL_Reject x)
  with assms show ?thesis by (auto split: list.splits)
qed

lemma TableList_run_gate:
  "length (tl_requests st) \<le> 1 \<Longrightarrow> (tl_requests st \<noteq> [] \<longrightarrow> tablesRequested st) \<Longrightarrow>
   length (tl_requests (foldl (TableList_step runs) st evs)) \<le> 1
     \<and> (tl_requests (foldl (TableList_step runs) st evs) \<noteq> [] \<longrightarrow>
          tablesRequested (foldl (TableList_step runs) st evs))"
proof (induction evs arbitrary: st)
  case Nil
  then show ?case by simp
next
  case (Cons e evs)
  from TableList_step_gate [OF Cons.prems, of runs e]
  have a: "length (tl_requests (TableList_step runs st e)) \<le> 1"
    and b: "tl_requests (TableList_step runs st e) \<noteq> [] \<longrightarrow>
            tablesRequested (TableList_step runs st e)"
    by blast+
  from Cons.IH [OF a b] show ?case by simp
qed

text \<open>Once the flag is set it stays set, and no request is added.\<close>

lemma TableList_step_requested:
  assumes "tablesRequested st"
  shows "tablesRequested (TableList_step runs st e)
     \<and> tl_requests (TableList_step runs st e) = tl_requests st"
proof (cases e)
  case (TL_Render p)
  with assms show ?thesis by (auto simp: Let_def split: option.splits prod.splits)
next
  case (TL_Resolve r)
  with assms show ?thesis by (auto split: list.splits option.splits)
next
  case (TL_Reject x)
  with assms show ?thesis by (auto split: list.splits)
qed

lemma TableList_run_requested:
  "tablesRequested st \<Longrightarrow>
   tablesRequested (foldl (TableList_step runs) st evs)
     \<and> tl_requests (foldl (TableList_step runs) st evs) = tl_requests st"
proof (induction evs arbitrary: st)
  case Nil
  then show ?case by simp
next
  case (Cons e evs)
  from TableList_step_requested [OF Cons.prems, of runs e]
    Cons.IH [of "TableList_step runs st e"]
  show ?case by simp
qed

lemma TableList_first_render:
  assumes "runs None (0, Some i, False)"
    and "tl_tables p = []" and "tl_sqlTableContext p = Some (i, c)"
  shows "TableList_step runs TableList_init (TL_Render p) =
     \<lparr>tablesRequested = True, tablesLoading = True, tl_deps = Some (0, Some i, False),
      tl_pending = [c], tl_requests = [(ctx_engine c, ctx_database c, ctx_schema c)],
      tl_added = [], tl_thrown = []\<rparr>"
  using assms by (simp add: TableList_init_def)

lemma DatasetTableItem_step_gate:
  assumes "length (ti_requests st) \<le> 1"
    and "ti_requests st \<noteq> [] \<longrightarrow> tableDetailsRequested st"
  shows "length (ti_requests (DatasetTableItem_step runs st e)) \<le> 1
     \<and> (ti_requests (DatasetTableItem_step runs st e) \<noteq> [] \<longrightarrow>
          tableDetailsRequested (DatasetTableItem_step runs st e))"
proof (cases e)
  case (TI_Render p)
  with assms show ?thesis
    by (cases "ti_requests st") (auto simp: Let_def split: option.splits)
next
  case TI_Select
  with assms show ?thesis by simp
next
  case (TI_Resolve r)
  with assms show ?thesis by (auto split: list.splits option.splits)
next
  case (TI_Reject x)
  with assms show ?thesis by (auto split: list.splits)
qed

lemma DatasetTableItem_run_gate:
  "length (ti_requests st) \<le> 1 \<Longrightarrow>
   (ti_requests st \<noteq> [] \<longrightarrow> tableDetailsRequested st) \<Longrightarrow>
   length (ti_requests (foldl (DatasetTableItem_step runs) st evs)) \<le> 1
     \<and> (ti_requests (foldl (DatasetTableItem_step runs) st evs) \<noteq> [] \<longrightarrow>
          tableDetailsRequested (foldl (DatasetTableItem_step runs) st evs))"
proof (induction evs arbitrary: st)
  case Nil
  then show ?case by simp
next
  case (Cons e evs)
  from DatasetTableItem_step_gate [OF Cons.prems, of runs e]
  have a: "length (ti_requests (DatasetTableItem_step runs st e)) \<le> 1"
    and b: "ti_requests (DatasetTableItem_step runs st e) \<noteq> [] \<longrightarrow>
            tableDetailsRequested (DatasetTableItem_step runs st e)"
    by blast+
  from Cons.IH [OF a b] show ?case by simp
qed

lemma DatasetTableItem_step_requested:
  assumes "tableDetailsRequested st"
  shows "tableDetailsRequested (DatasetTableItem_step runs st e)
     \<and> ti_requests (DatasetTableItem_step runs st e) = ti_requests st"
proof (cases e)
  case (TI_Render p)
  with assms show ?thesis by (auto simp: Let_def split: option.splits)
next
  case TI_Select
  with assms show ?thesis by simp
next
  case (TI_Resolve r)
  with assms show ?thesis by (auto split: list.splits option.splits)
next
  case (TI_Reject x)
  with assms show ?thesis by (auto split: list.splits)
qed

lemma DatasetTableItem_run_requested:
  "tableDetailsRequested st \<Longrightarrow>
   tableDetailsRequested (foldl (DatasetTableItem_step runs) st evs)
     \<and> ti_requests (foldl (DatasetTableItem_step runs) st evs) = ti_requests st"
proof (induction evs arbitrary: st)
  case Nil
  then show ?case by simp
next
  case (Cons e evs)
  from DatasetTableItem_step_requested [OF Cons.prems, of runs e]
    Cons.IH [of "DatasetTableItem_step runs st e"]
  show ?case by simp
qed

lemma DatasetTableItem_expand:
  assumes "runs (Some (False, 0 < length (columns (ti_table q)))) (True, False)"
    and "columns (ti_table q') = []" and "ti_sqlTableContext q' = Some d"
  shows "foldl (DatasetTableItem_step runs) DatasetTableItem_init
           [TI_Render q, TI_Select, TI_Render q'] =
     \<lparr>tbl_isExpanded = True, tableDetailsRequested = True, ti_deps = Some (True, False),
      ti_pending = [d],
      ti_requests = [(ctx_engine d, ctx_database d, ctx_schema d, tbl_name (ti_table q'))],
      ti_added = [], ti_thrown = []\<rparr>"
  using assms by (simp add: DatasetTableItem_init_def Let_def split: option.splits)

text \<open>
  C3: a mounted \<^verbatim>\<open>TableList\<close> and a mounted \<^verbatim>\<open>DatasetTableItem\<close> send at most one
  request, whatever renders, selections and responses follow and whenever
  \<^verbatim>\<open>useAsyncData\<close> runs the function, and a request has been sent only when the requested
  flag is set (the flag is set in the run that sends it). If the function runs after
  the first render of a \<^verbatim>\<open>TableList\<close> that has no tables and has a context, exactly one
  request is sent, for the engine, database and schema of that context; if it runs
  after the render in which a \<^verbatim>\<open>DatasetTableItem\<close> with no columns and with a context is
  first expanded, exactly one is sent, for these and the table's name. Nothing that
  follows sends another.
\<close>

theorem fetch_at_most_once:
  "length (tl_requests (TableList runs evs)) \<le> 1
   \<and> (tl_requests (TableList runs evs) \<noteq> [] \<longrightarrow> tablesRequested (TableList runs evs))
   \<and> (runs None (0, Some i, False) \<longrightarrow>
        tl_tables p = [] \<longrightarrow> tl_sqlTableContext p = Some (i, c) \<longrightarrow>
        tl_requests (TableList runs (TL_Render p # evs')) =
          [(ctx_engine c, ctx_database c, ctx_schema c)])
   \<and> length (ti_requests (DatasetTableItem truns tevs)) \<le> 1
   \<and> (ti_requests (DatasetTableItem truns tevs) \<noteq> [] \<longrightarrow>
        tableDetailsRequested (DatasetTableItem truns tevs))
   \<and> (truns (Some (False, 0 < length (columns (ti_table q)))) (True, False) \<longrightarrow>
        columns (ti_table q') = [] \<longrightarrow> ti_sqlTableContext q' = Some d \<longrightarrow>
        ti_requests (DatasetTableItem truns
          (TI_Render q # TI_Select # TI_Render q' # tevs')) =
          [(ctx_engine d, ctx_database d, ctx_schema d, tbl_name (ti_table q'))])"
proof -
  have tl: "length (tl_requests (TableList runs evs)) \<le> 1
      \<and> (tl_requests (TableList runs evs) \<noteq> [] \<longrightarrow> tablesRequested (TableList runs evs))"
    unfolding TableList_def
    by (rule TableList_run_gate) (simp_all add: TableList_init_def)
  have tl1: "tl_requests (TableList runs (TL_Render p # evs')) =
          [(ctx_engine c, ctx_database c, ctx_schema c)]"
    if "runs None (0, Some i, False)"
      and "tl_tables p = []" and "tl_sqlTableContext p = Some (i, c)"
  proof -
    let ?st = "TableList_step runs TableList_init (TL_Render p)"
    from TableList_first_render [where runs = runs, OF that]
    have "tablesRequested ?st"
      and "tl_requests ?st = [(ctx_engine c, ctx_database c, ctx_schema c)]"
      by simp_all
    with TableList_run_requested [of ?st runs evs'] show ?thesis
      by (simp add: TableList_def)
  qed
  have ti: "length (ti_requests (DatasetTableItem truns tevs)) \<le> 1
      \<and> (ti_requests (DatasetTableItem truns tevs) \<noteq> [] \<longrightarrow>
           tableDetailsRequested (DatasetTableItem truns tevs))"
    unfolding DatasetTableItem_def
    by (rule DatasetTableItem_run_gate) (simp_all add: DatasetTableItem_init_def)
  have ti1: "ti_requests (DatasetTableItem truns
          (TI_Render q # TI_Select # TI_Render q' # tevs')) =
          [(ctx_engine d, ctx_database d, ctx_schema d, tbl_name (ti_table q'))]"
    if "truns (Some (False, 0 < length (columns (ti_table q)))) (True, False)"
      and "columns (ti_table q') = []" and "ti_sqlTableContext q' = Some d"
  proof -
    let ?st = "foldl (DatasetTableItem_step truns) DatasetTableItem_init
                 [TI_Render q, TI_Select, TI_Render q']"
    from DatasetTableItem_expand [where runs = truns, OF that]
    have "tableDetailsRequested ?st"
      and "ti_requests ?st =
             [(ctx_engine d, ctx_database d, ctx_schema d, tbl_name (ti_table q'))]"
      by simp_all
    with DatasetTableItem_run_requested [of ?st truns tevs'] show ?thesis
      by (simp add: DatasetTableItem_def)
  qed
  from tl tl1 ti ti1 show ?thesis by blast
qed

text \<open>
  With the effects of React: a \<^verbatim>\<open>TableList\<close> rendered four times with a new context
  object each time, the response arriving after the third render; a
  \<^verbatim>\<open>DatasetTableItem\<close> expanded, collapsed and expanded again.
\<close>

theorem fetch_at_most_once_witness:
  "tl_requests (TableList deps_changed
      [TL_Render \<lparr>tl_tables = [], tl_sqlTableContext = Some (1, ctx_sample ''db'')\<rparr>,
       TL_Render \<lparr>tl_tables = [], tl_sqlTableContext = Some (2, ctx_sample ''db'')\<rparr>,
       TL_Render \<lparr>tl_tables = [], tl_sqlTableContext = Some (3, ctx_sample ''db'')\<rparr>,
       TL_Resolve (TableListResult (Some [])),
       TL_Render \<lparr>tl_tables = [], tl_sqlTableContext = Some (4, ctx_sample ''db'')\<rparr>])
     = [(''engine'', ''db'', ''main'')]
   \<and> ti_requests (DatasetTableItem deps_changed
      [TI_Render \<lparr>ti_table = tbl ''t'' ''connection'' Undefined,
                  ti_sqlTableContext = Some (ctx_sample ''db'')\<rparr>,
       TI_Select,
       TI_Render \<lparr>ti_table = tbl ''t'' ''connection'' Undefined,
                  ti_sqlTableContext = Some (ctx_sample ''db'')\<rparr>,
       TI_Select,
       TI_Render \<lparr>ti_table = tbl ''t'' ''connection'' Undefined,
                  ti_sqlTableContext = Some (ctx_sample ''db'')\<rparr>,
       TI_Select,
       TI_Render \<lparr>ti_table = tbl ''t'' ''connection'' Undefined,
                  ti_sqlTableContext = Some (ctx_sample ''db'')\<rparr>])
     = [(''engine'', ''db'', ''main'', ''t'')]"
proof -
  let ?p = "\<lambda>i. \<lparr>tl_tables = [], tl_sqlTableContext = Some (i, ctx_sample ''db'')\<rparr>"
  let ?q = "\<lparr>ti_table = tbl ''t'' ''connection'' Undefined,
             ti_sqlTableContext = Some (ctx_sample ''db'')\<rparr>"
  have a: "tl_tables (?p 1) = []" by simp
  have b: "tl_sqlTableContext (?p 1) = Some (1, ctx_sample ''db'')" by simp
  have c: "columns (ti_table ?q) = []" by (simp add: tbl_def)
  have d: "ti_sqlTableContext ?q = Some (ctx_sample ''db'')" by simp
  have e: "deps_changed None (0::nat, Some (1::nat), False)"
    by (simp add: deps_changed_def)
  have f: "deps_changed (Some (False, 0 < length (columns (ti_table ?q)))) (True, False)"
    by (simp add: deps_changed_def)
  note w = fetch_at_most_once
    [where runs = deps_changed and truns = deps_changed
       and evs = "[]" and tevs = "[]" and p = "?p 1" and i = 1 and c = "ctx_sample ''db''"
       and evs' = "[TL_Render (?p 2), TL_Render (?p 3), TL_Resolve (TableListResult (Some [])),
                    TL_Render (?p 4)]"
       and q = ?q and q' = ?q and d = "ctx_sample ''db''"
       and tevs' = "[TI_Select, TI_Render ?q, TI_Select, TI_Render ?q]"]
  from w a b e have "tl_requests (TableList deps_changed
      [TL_Render (?p 1), TL_Render (?p 2), TL_Render (?p 3),
       TL_Resolve (TableListResult (Some [])), TL_Render (?p 4)])
     = [(ctx_engine (ctx_sample ''db''), ctx_database (ctx_sample ''db''),
         ctx_schema (ctx_sample ''db''))]"
    by blast
  moreover from w c d f have "ti_requests (DatasetTableItem deps_changed
      [TI_Render ?q, TI_Select, TI_Render ?q, TI_Select, TI_Render ?q, TI_Select, TI_Render ?q])
     = [(ctx_engine (ctx_sample ''db''), ctx_database (ctx_sample ''db''),
         ctx_schema (ctx_sample ''db''), tbl_name (ti_table ?q))]"
    by blast
  ultimately show ?thesis by (simp add: ctx_sample_def tbl_def)
qed

subsection \<open>A fetch without table data\<close>

lemma TableList_step_inv:
  assumes "TableList_inv st"
  shows "TableList_inv (TableList_step runs st e)"
proof (cases e)
  case (TL_Render p)
  with assms show ?thesis
    by (auto simp: TableList_inv_def Let_def split: option.splits prod.splits if_splits)
next
  case (TL_Resolve r)
  with assms show ?thesis
    by (cases "tl_pending st")
      (auto simp: TableList_inv_def split: option.splits if_splits)
next
  case (TL_Reject x)
  with assms show ?thesis
    by (cases "tl_pending st") (auto simp: TableList_inv_def split: if_splits)
qed

lemma TableList_run_inv:
  "TableList_inv st \<Longrightarrow> TableList_inv (foldl (TableList_step runs) st evs)"
  by (induction evs arbitrary: st) (simp_all add: TableList_step_inv)

lemma TableList_reachable: "TableList_inv (TableList runs evs)"
  unfolding TableList_def
  by (rule TableList_run_inv) (simp add: TableList_inv_def TableList_init_def)

text \<open>
  Once the request is answered, nothing changes the node any more but the recorded
  dependencies.
\<close>

lemma TableList_step_settled:
  assumes "tablesRequested st" and "tl_pending st = []"
  shows "(TableList_step runs st e)\<lparr>tl_deps := None\<rparr> = st\<lparr>tl_deps := None\<rparr>"
proof (cases e)
  case (TL_Render p)
  with assms show ?thesis by (auto simp: Let_def split: option.splits prod.splits)
next
  case (TL_Resolve r)
  with assms show ?thesis by simp
next
  case (TL_Reject x)
  with assms show ?thesis by simp
qed

lemma TableList_run_settled:
  "tablesRequested st \<Longrightarrow> tl_pending st = [] \<Longrightarrow>
   (foldl (TableList_step runs) st evs)\<lparr>tl_deps := None\<rparr> = st\<lparr>tl_deps := None\<rparr>"
proof (induction evs arbitrary: st)
  case Nil
  show ?case by simp
next
  case (Cons e evs)
  from TableList_step_settled [OF Cons.prems, of runs e]
  have eq: "(TableList_step runs st e)\<lparr>tl_deps := None\<rparr> = st\<lparr>tl_deps := None\<rparr>" .
  from arg_cong [OF eq, of tablesRequested] arg_cong [OF eq, of tl_pending] Cons.prems
  have "tablesRequested (TableList_step runs st e)" "tl_pending (TableList_step runs st e) = []"
    by simp_all
  from Cons.IH [OF this] eq show ?case by simp
qed

lemma TableList_render_deps:
  "TableList_render st q = TableList_render (st\<lparr>tl_deps := None\<rparr>) q"
  by (simp add: TableList_render_def TableList_view_def useAsyncData_isPending_def
      useAsyncData_error_def)

text \<open>
  C4: take a mounted \<^verbatim>\<open>TableList\<close> after any renders and responses, with a request
  pending, sent by the run whose context is \<open>c\<close>. It is the only request of the node.
  When it resolves, the function clears the loading flag. If the response has no table
  data (no response object, or one without \<^verbatim>\<open>tables\<close>), the function throws the error
  \<^verbatim>\<open>No tables available\<close> without calling \<^verbatim>\<open>addTableList\<close>, and from then on, whatever
  renders and responses follow, the node renders that error. If the response has an
  array of tables, be it empty, the function passes it to \<^verbatim>\<open>addTableList\<close> and throws
  nothing, and the node renders \<^verbatim>\<open>No tables found\<close> as long as it has no tables. In both
  cases the requested flag stays set and no second request is sent.
\<close>

theorem TableList_no_table_data:
  assumes "tl_pending (TableList runs evs) = c # rest"
  shows "length (tl_requests (TableList runs evs)) = 1
     \<and> (tables_of r = None \<longrightarrow>
        tl_thrown (TableList runs (evs @ [TL_Resolve r])) = [''No tables available'']
        \<and> tl_added (TableList runs (evs @ [TL_Resolve r])) = []
        \<and> TableList_render (TableList runs (evs @ TL_Resolve r # evs')) q =
           ErrorState ''No tables available'')
     \<and> (tables_of r = Some ts \<longrightarrow>
        tl_thrown (TableList runs (evs @ [TL_Resolve r])) = []
        \<and> tl_added (TableList runs (evs @ [TL_Resolve r])) = [(ts, c)]
        \<and> (tl_tables q = [] \<longrightarrow>
             TableList_render (TableList runs (evs @ TL_Resolve r # evs')) q =
             EmptyState ''No tables found''))
     \<and> \<not> tablesLoading (TableList runs (evs @ [TL_Resolve r]))
     \<and> tablesRequested (TableList runs (evs @ TL_Resolve r # evs'))
     \<and> tl_requests (TableList runs (evs @ TL_Resolve r # evs')) =
         tl_requests (TableList runs evs)"
proof -
  let ?st = "TableList runs evs"
  let ?st' = "TableList_step runs ?st (TL_Resolve r)"
  let ?end = "foldl (TableList_step runs) ?st' evs'"
  from TableList_reachable [of runs evs] assms
  have st: "tablesRequested ?st" "length (tl_requests ?st) = 1" "rest = []"
    "tl_thrown ?st = []" "tl_added ?st = []"
    by (auto simp: TableList_inv_def split: if_splits)
  from st assms have st': "tablesRequested ?st'" "tl_pending ?st' = []"
    "\<not> tablesLoading ?st'" "tl_requests ?st' = tl_requests ?st"
    by (simp_all split: option.splits)
  from st assms have none: "tl_thrown ?st' = [''No tables available'']" "tl_added ?st' = []"
    if "tables_of r = None"
    using that by simp_all
  from st assms have some: "tl_thrown ?st' = []" "tl_added ?st' = [(ts, c)]"
    if "tables_of r = Some ts"
    using that by simp_all
  have run1: "TableList runs (evs @ [TL_Resolve r]) = ?st'"
    by (simp add: TableList_def)
  have run2: "TableList runs (evs @ TL_Resolve r # evs') = ?end"
    by (simp add: TableList_def)
  have "?end\<lparr>tl_deps := None\<rparr> = ?st'\<lparr>tl_deps := None\<rparr>"
    using st'(1,2) by (rule TableList_run_settled)
  then have render: "TableList_render ?end q = TableList_render ?st' q"
    using TableList_render_deps [of ?end q] TableList_render_deps [of ?st' q] by simp
  have err: "TableList_render ?st' q = ErrorState ''No tables available''"
    if "tables_of r = None"
    using none [OF that] st'
    by (simp add: TableList_render_def TableList_view_def useAsyncData_isPending_def
        useAsyncData_error_def)
  have emp: "TableList_render ?st' q = EmptyState ''No tables found''"
    if "tables_of r = Some ts" and "tl_tables q = []"
    using some [OF that(1)] st' that(2)
    by (simp add: TableList_render_def TableList_view_def useAsyncData_isPending_def
        useAsyncData_error_def)
  from TableList_run_requested [OF st'(1), of runs evs'] st st' none some err emp
  show ?thesis unfolding run1 run2 render by simp
qed

text \<open>
  With the effects of React: two renders, then a response without an object, then a
  further render; and two renders, then a response with an empty array.
\<close>

theorem TableList_no_table_data_witness:
  "TableList_render (TableList deps_changed
      [TL_Render \<lparr>tl_tables = [], tl_sqlTableContext = Some (1, ctx_sample ''db'')\<rparr>,
       TL_Render \<lparr>tl_tables = [], tl_sqlTableContext = Some (2, ctx_sample ''db'')\<rparr>,
       TL_Resolve NoTableList,
       TL_Render \<lparr>tl_tables = [], tl_sqlTableContext = Some (3, ctx_sample ''db'')\<rparr>])
     \<lparr>tl_tables = [], tl_sqlTableContext = Some (3, ctx_sample ''db'')\<rparr>
     = ErrorState ''No tables available''
   \<and> tl_requests (TableList deps_changed
      [TL_Render \<lparr>tl_tables = [], tl_sqlTableContext = Some (1, ctx_sample ''db'')\<rparr>,
       TL_Render \<lparr>tl_tables = [], tl_sqlTableContext = Some (2, ctx_sample ''db'')\<rparr>,
       TL_Resolve NoTableList,
       TL_Render \<lparr>tl_tables = [], tl_sqlTableContext = Some (3, ctx_sample ''db'')\<rparr>])
     = [(''engine'', ''db'', ''main'')]
   \<and> TableList_render (TableList deps_changed
      [TL_Render \<lparr>tl_tables = [], tl_sqlTableContext = Some (1, ctx_sample ''db'')\<rparr>,
       TL_Render \<lparr>tl_tables = [], tl_sqlTableContext = Some (2, ctx_sample ''db'')\<rparr>,
       TL_Resolve (TableListResult (Some []))])
     \<lparr>tl_tables = [], tl_sqlTableContext = Some (3, ctx_sample ''db'')\<rparr>
     = EmptyState ''No tables found''"
proof -
  let ?p = "\<lambda>i. \<lparr>tl_tables = [], tl_sqlTableContext = Some (i, ctx_sample ''db'')\<rparr>"
  have a: "tl_pending (TableList deps_changed [TL_Render (?p 1), TL_Render (?p 2)]) =
      ctx_sample ''db'' # []"
    by (simp add: TableList_def TableList_init_def deps_changed_def)
  have b: "tl_requests (TableList deps_changed [TL_Render (?p 1), TL_Render (?p 2)]) =
      [(''engine'', ''db'', ''main'')]"
    by (simp add: TableList_def TableList_init_def deps_changed_def ctx_sample_def)
  have c: "tables_of NoTableList = None" by simp
  have d: "tables_of (TableListResult (Some [])) = Some []" by simp
  have e: "tl_tables (?p 3) = []" by simp
  note w1 = TableList_no_table_data [where runs = deps_changed, OF a,
      where r = NoTableList and evs' = "[TL_Render (?p 3)]" and ts = "[]" and q = "?p 3"]
  note w2 = TableList_no_table_data [where runs = deps_changed, OF a,
      where r = "TableListResult (Some [])" and evs' = "[]" and ts = "[]" and q = "?p 3"]
  from w1 c have "TableList_render (TableList deps_changed
      ([TL_Render (?p 1), TL_Render (?p 2)] @ [TL_Resolve NoTableList, TL_Render (?p 3)]))
      (?p 3) = ErrorState ''No tables available''"
    by blast
  moreover from w1 b have "tl_requests (TableList deps_changed
      ([TL_Render (?p 1), TL_Render (?p 2)] @ [TL_Resolve NoTableList, TL_Render (?p 3)]))
      = [(''engine'', ''db'', ''main'')]"
    by simp
  moreover from w2 d e have "TableList_render (TableList deps_changed
      ([TL_Render (?p 1), TL_Render (?p 2)] @ [TL_Resolve (TableListResult (Some []))]))
      (?p 3) = EmptyState ''No tables found''"
    by blast
  ultimately show ?thesis by simp
qed

subsection \<open>The spinner of the refresh button\<close>






end
